theory Spec2Isabelle
  imports Main
begin

section \<open>Constants and the board\<close>

text \<open>
  The module-level constants of \<^verbatim>\<open>Gomoku.py\<close>. Coordinates and cell values are
  Python integers, hence \<open>int\<close>: the scan \<open>row + dr * i\<close> with \<open>dc = -1\<close> leaves the
  board on the negative side and the bounds test has to see that.
\<close>

definition BOARD_DIMENSION :: int where
  "BOARD_DIMENSION = 10"

definition HUMAN :: int where
  "HUMAN = 1"

definition AI :: int where
  "AI = 2"

definition SEQUENCE_LENGTH :: int where
  "SEQUENCE_LENGTH = 5"

type_synonym board = "int list list"

type_synonym move = "int \<times> int"

text \<open>\<^verbatim>\<open>range(n)\<close> for an integer \<open>n\<close>: the list \<open>0, 1, ..., n - 1\<close>.\<close>

definition range_py :: "int \<Rightarrow> int list" where
  "range_py n = [0..n - 1]"

text \<open>\<^verbatim>\<open>Initialize_Board\<close>: a list of \<open>BOARD_DIMENSION\<close> rows of \<open>BOARD_DIMENSION\<close> zeros.\<close>

definition Initialize_Board :: board where
  "Initialize_Board =
     map (\<lambda>_. map (\<lambda>_. 0) (range_py BOARD_DIMENSION)) (range_py BOARD_DIMENSION)"

text \<open>
  Every board of the program comes from \<^verbatim>\<open>Initialize_Board\<close> and is only ever changed by
  writing one cell, so it is a square matrix of side \<open>BOARD_DIMENSION\<close>. On such a board no
  guarded read \<^verbatim>\<open>board[r][c]\<close> is out of range.
\<close>

definition wf_board :: "board \<Rightarrow> bool" where
  "wf_board b =
     (length b = nat BOARD_DIMENSION \<and> list_all (\<lambda>row. length row = nat BOARD_DIMENSION) b)"

text \<open>The read \<^verbatim>\<open>board[r][c]\<close>; the source only performs it behind a bounds test.\<close>

definition cell :: "board \<Rightarrow> int \<Rightarrow> int \<Rightarrow> int" where
  "cell b r c = b ! nat r ! nat c"

definition in_bounds :: "int \<Rightarrow> int \<Rightarrow> bool" where
  "in_bounds r c = (0 \<le> r \<and> r < BOARD_DIMENSION \<and> 0 \<le> c \<and> c < BOARD_DIMENSION)"

text \<open>\<^verbatim>\<open>CheckValidMove\<close>: Python's \<^verbatim>\<open>and\<close> is short-circuit, the read comes last.\<close>

definition CheckValidMove :: "board \<Rightarrow> int \<Rightarrow> int \<Rightarrow> bool" where
  "CheckValidMove b row col =
     (0 \<le> row \<and> row < BOARD_DIMENSION \<and> 0 \<le> col \<and> col < BOARD_DIMENSION \<and> cell b row col = 0)"

text \<open>
  The write \<^verbatim>\<open>board[row][col] = player\<close> (\<^verbatim>\<open>MakeMove\<close>, and the in-place placements and
  reverts of the search). The board is mutated in place in the source; here the updated
  board is returned.
\<close>

definition MakeMove :: "board \<Rightarrow> int \<Rightarrow> int \<Rightarrow> int \<Rightarrow> board" where
  "MakeMove b row col player = b[nat row := (b ! nat row)[nat col := player]]"

section \<open>Run scanning, win detection, evaluation\<close>

definition directions :: "(int \<times> int) list" where
  "directions = [(1, 0), (0, 1), (1, 1), (1, -1)]"

text \<open>
  The counting loop that occurs twice in the source, inline in \<^verbatim>\<open>WinnerCheck\<close> and as
  \<^verbatim>\<open>PatternCount\<close> in \<^verbatim>\<open>Board_Evaluate\<close>:
  \<^verbatim>\<open>for i in range(SEQUENCE_LENGTH): ... count += 1 ... else: break\<close>.
  The list argument holds the values of \<open>i\<close> still to come.
\<close>

fun count_loop :: "board \<Rightarrow> int \<Rightarrow> int \<Rightarrow> int \<Rightarrow> int \<Rightarrow> int \<Rightarrow> int list \<Rightarrow> int \<Rightarrow> int" where
  "count_loop b row col dr dc target [] count = count"
| "count_loop b row col dr dc target (i # rest) count =
     (let r = row + dr * i; c = col + dc * i in
      if 0 \<le> r \<and> r < BOARD_DIMENSION \<and> 0 \<le> c \<and> c < BOARD_DIMENSION \<and> cell b r c = target
      then count_loop b row col dr dc target rest (count + 1)
      else count)"

definition PatternCount :: "board \<Rightarrow> int \<Rightarrow> int \<Rightarrow> int \<Rightarrow> int \<Rightarrow> int \<Rightarrow> int" where
  "PatternCount b row col dr dc target =
     count_loop b row col dr dc target (range_py SEQUENCE_LENGTH) 0"

text \<open>\<^verbatim>\<open>WinnerCheck\<close>: three nested loops with an early \<^verbatim>\<open>return True\<close>.\<close>

fun WinnerCheck_dirs :: "board \<Rightarrow> int \<Rightarrow> int \<Rightarrow> int \<Rightarrow> (int \<times> int) list \<Rightarrow> bool" where
  "WinnerCheck_dirs b player row col [] = False"
| "WinnerCheck_dirs b player row col ((dr, dc) # rest) =
     (if count_loop b row col dr dc player (range_py SEQUENCE_LENGTH) 0 = SEQUENCE_LENGTH
      then True
      else WinnerCheck_dirs b player row col rest)"

fun WinnerCheck_cols :: "board \<Rightarrow> int \<Rightarrow> int \<Rightarrow> int list \<Rightarrow> bool" where
  "WinnerCheck_cols b player row [] = False"
| "WinnerCheck_cols b player row (col # rest) =
     (if cell b row col \<noteq> player then WinnerCheck_cols b player row rest
      else if WinnerCheck_dirs b player row col directions then True
      else WinnerCheck_cols b player row rest)"

fun WinnerCheck_rows :: "board \<Rightarrow> int \<Rightarrow> int list \<Rightarrow> bool" where
  "WinnerCheck_rows b player [] = False"
| "WinnerCheck_rows b player (row # rest) =
     (if WinnerCheck_cols b player row (range_py BOARD_DIMENSION) then True
      else WinnerCheck_rows b player rest)"

definition WinnerCheck :: "board \<Rightarrow> int \<Rightarrow> bool" where
  "WinnerCheck b player = WinnerCheck_rows b player (range_py BOARD_DIMENSION)"

text \<open>
  \<^verbatim>\<open>Board_Evaluate\<close>: the three nested \<^verbatim>\<open>for\<close> loops thread the accumulator \<open>score\<close>,
  so each is a \<open>fold\<close>.
\<close>

definition Board_Evaluate :: "board \<Rightarrow> int \<Rightarrow> int" where
  "Board_Evaluate b player =
     (let opponent = (if player = AI then HUMAN else AI) in
      fold (\<lambda>row score.
        fold (\<lambda>col score.
          fold (\<lambda>(dr, dc) score.
            if cell b row col = player
            then score + (PatternCount b row col dr dc player)\<^sup>2
            else if cell b row col = opponent
            then score - (PatternCount b row col dr dc opponent)\<^sup>2
            else score)
          directions score)
        (range_py BOARD_DIMENSION) score)
      (range_py BOARD_DIMENSION) 0)"

section \<open>Candidate moves\<close>

text \<open>
  \<^verbatim>\<open>ValidMoveFinder\<close> collects the candidates in a Python \<^verbatim>\<open>set\<close> and returns
  \<^verbatim>\<open>list(moves)\<close>. The order in which a set is iterated is fixed by the interpreter (hash
  values and the history of insertions), not by the program. The model therefore keeps the
  sequence of \<^verbatim>\<open>moves.add\<close> calls, in loop order, and takes the conversion \<^verbatim>\<open>list(...)\<close>
  as a parameter \<open>it\<close>, of which only what Python guarantees is assumed: the result holds
  exactly the elements added, each once (\<open>set_order\<close>).
\<close>

definition set_order :: "(move list \<Rightarrow> move list) \<Rightarrow> bool" where
  "set_order it = (\<forall>adds. set (it adds) = set adds \<and> distinct (it adds))"

definition ValidMoveFinder_adds :: "board \<Rightarrow> int \<Rightarrow> move list" where
  "ValidMoveFinder_adds b radius =
     fold (\<lambda>row moves.
       fold (\<lambda>col moves.
         if cell b row col \<noteq> 0
         then fold (\<lambda>dr moves.
                fold (\<lambda>dc moves.
                  (let nr = row + dr; nc = col + dc in
                   if CheckValidMove b nr nc then moves @ [(nr, nc)] else moves))
                [- radius..radius] moves)
              [- radius..radius] moves
         else moves)
       (range_py BOARD_DIMENSION) moves)
     (range_py BOARD_DIMENSION) []"

definition ValidMoveFinder :: "(move list \<Rightarrow> move list) \<Rightarrow> board \<Rightarrow> int \<Rightarrow> move list" where
  "ValidMoveFinder it b radius = it (ValidMoveFinder_adds b radius)"

section \<open>Immediate wins\<close>

text \<open>
  The body of the loop of \<^verbatim>\<open>CriticalMoveFinder\<close> for one \<open>(row, col)\<close>: place the mark, ask
  \<^verbatim>\<open>WinnerCheck\<close>, write \<open>0\<close> back. The source writes the \<open>0\<close> in both branches of its
  \<^verbatim>\<open>if\<close>; the result is the board after the revert together with the answer. The loop
  is its only caller, with \<open>(row, col)\<close> taken from \<^verbatim>\<open>ValidMoveFinder\<close>.
\<close>

definition wouldWin :: "board \<Rightarrow> int \<Rightarrow> int \<Rightarrow> int \<Rightarrow> board \<times> bool" where
  "wouldWin b row col player =
     (let b1 = MakeMove b row col player in
      if WinnerCheck b1 player then (MakeMove b1 row col 0, True)
      else (MakeMove b1 row col 0, False))"

fun CriticalMoveFinder_loop :: "board \<Rightarrow> int \<Rightarrow> move list \<Rightarrow> board \<times> move option" where
  "CriticalMoveFinder_loop b player [] = (b, None)"
| "CriticalMoveFinder_loop b player ((row, col) # rest) =
     (case wouldWin b row col player of
        (b', True) \<Rightarrow> (b', Some (row, col))
      | (b', False) \<Rightarrow> CriticalMoveFinder_loop b' player rest)"

definition CriticalMoveFinder :: "(move list \<Rightarrow> move list) \<Rightarrow> board \<Rightarrow> int \<Rightarrow> board \<times> move option" where
  "CriticalMoveFinder it b player = CriticalMoveFinder_loop b player (ValidMoveFinder it b 2)"

section \<open>Scores\<close>

text \<open>
  A score is a Python integer (\<^verbatim>\<open>Board_Evaluate\<close>) or one of \<^verbatim>\<open>-math.inf\<close>,
  \<^verbatim>\<open>math.inf\<close>, compared by \<^verbatim>\<open>>\<close>, \<^verbatim>\<open><\<close>, \<^verbatim>\<open><=\<close>, \<^verbatim>\<open>max\<close> and \<^verbatim>\<open>min\<close>.
\<close>

datatype score = NegInf | Fin int | PosInf

instantiation score :: linorder
begin

fun less_eq_score :: "score \<Rightarrow> score \<Rightarrow> bool" where
  "less_eq_score NegInf _ = True"
| "less_eq_score (Fin a) NegInf = False"
| "less_eq_score (Fin a) (Fin b) = (a \<le> b)"
| "less_eq_score (Fin a) PosInf = True"
| "less_eq_score PosInf PosInf = True"
| "less_eq_score PosInf _ = False"

definition less_score :: "score \<Rightarrow> score \<Rightarrow> bool" where
  "less_score x y = (x \<le> y \<and> \<not> y \<le> x)"

instance
proof
  fix x y z :: score
  show "(x < y) = (x \<le> y \<and> \<not> y \<le> x)" by (simp add: less_score_def)
  show "x \<le> x" by (cases x) simp_all
  show "x \<le> y \<Longrightarrow> y \<le> z \<Longrightarrow> x \<le> z" by (cases x; cases y; cases z) simp_all
  show "x \<le> y \<Longrightarrow> y \<le> x \<Longrightarrow> x = y" by (cases x; cases y) simp_all
  show "x \<le> y \<or> y \<le> x" by (cases x; cases y) auto
qed

end

section \<open>Search\<close>

text \<open>
  \<^verbatim>\<open>MiniMax\<close> mutates the one shared board: it writes the mark, recurses, writes \<open>0\<close>
  back. The model threads the board through every call and returns it with the result, so
  that what the search leaves behind is part of what is proved. The two \<^verbatim>\<open>for\<close> loops
  carry \<open>alpha\<close> (or \<open>beta\<close>), the best value and the best move; the recursive call at
  \<open>depth - 1\<close> is handed to them as \<open>rec\<close>. \<^verbatim>\<open>break\<close> ends the loop with the current state.
\<close>

fun max_loop ::
  "(board \<Rightarrow> score \<Rightarrow> score \<Rightarrow> board \<times> move option \<times> score) \<Rightarrow> move list \<Rightarrow> board \<Rightarrow>
   score \<Rightarrow> score \<Rightarrow> score \<Rightarrow> move option \<Rightarrow> board \<times> move option \<times> score" where
  "max_loop rec [] b alpha beta max_eval best_move = (b, best_move, max_eval)"
| "max_loop rec ((row, col) # rest) b alpha beta max_eval best_move =
     (let b1 = MakeMove b row col AI;
          (b2, _, eval) = rec b1 alpha beta;
          b3 = MakeMove b2 row col 0;
          (max_eval', best_move') =
             (if eval > max_eval then (eval, Some (row, col)) else (max_eval, best_move));
          alpha' = max alpha eval
      in if beta \<le> alpha' then (b3, best_move', max_eval')
         else max_loop rec rest b3 alpha' beta max_eval' best_move')"

fun min_loop ::
  "(board \<Rightarrow> score \<Rightarrow> score \<Rightarrow> board \<times> move option \<times> score) \<Rightarrow> move list \<Rightarrow> board \<Rightarrow>
   score \<Rightarrow> score \<Rightarrow> score \<Rightarrow> move option \<Rightarrow> board \<times> move option \<times> score" where
  "min_loop rec [] b alpha beta min_eval best_move = (b, best_move, min_eval)"
| "min_loop rec ((row, col) # rest) b alpha beta min_eval best_move =
     (let b1 = MakeMove b row col HUMAN;
          (b2, _, eval) = rec b1 alpha beta;
          b3 = MakeMove b2 row col 0;
          (min_eval', best_move') =
             (if eval < min_eval then (eval, Some (row, col)) else (min_eval, best_move));
          beta' = min beta eval
      in if beta' \<le> alpha then (b3, best_move', min_eval')
         else min_loop rec rest b3 alpha beta' min_eval' best_move')"

fun MiniMax ::
  "(move list \<Rightarrow> move list) \<Rightarrow> board \<Rightarrow> nat \<Rightarrow> score \<Rightarrow> score \<Rightarrow> bool \<Rightarrow>
   board \<times> move option \<times> score" where
  "MiniMax it b depth alpha beta maximizing_player =
     (if depth = 0 \<or> WinnerCheck b HUMAN \<or> WinnerCheck b AI
      then (b, None, Fin (Board_Evaluate b AI))
      else
        (let valid_moves = ValidMoveFinder it b 2 in
         if maximizing_player
         then max_loop (\<lambda>b' a be. MiniMax it b' (depth - 1) a be False)
                valid_moves b alpha beta NegInf None
         else min_loop (\<lambda>b' a be. MiniMax it b' (depth - 1) a be True)
                valid_moves b alpha beta PosInf None))"

text \<open>
  \<^verbatim>\<open>AI_move\<close>. A returned tuple is always truthy in Python (also \<open>(0, 0)\<close>), so
  \<^verbatim>\<open>if critical_move:\<close> tests for \<open>None\<close>.
\<close>

definition AI_move :: "(move list \<Rightarrow> move list) \<Rightarrow> board \<Rightarrow> board \<times> move option" where
  "AI_move it b =
     (case CriticalMoveFinder it b AI of
        (b1, Some critical_move) \<Rightarrow> (b1, Some critical_move)
      | (b1, None) \<Rightarrow>
          (case CriticalMoveFinder it b1 HUMAN of
             (b2, Some critical_threat) \<Rightarrow> (b2, Some critical_threat)
           | (b2, None) \<Rightarrow>
               (case MiniMax it b2 2 NegInf PosInf True of (b3, move, _) \<Rightarrow> (b3, move))))"

section \<open>The human's move\<close>

text \<open>
  What \<^verbatim>\<open>main\<close> holds between frames, and the handling of one mouse click at cell
  \<open>(row, col)\<close> on the human's turn (the \<^verbatim>\<open>if CheckValidMove(...)\<close> block). The first
  component of the result says whether the move was taken.
\<close>

record session =
  s_board :: board
  s_game_over :: bool
  s_turn :: int

definition applyHumanMove :: "session \<Rightarrow> int \<Rightarrow> int \<Rightarrow> bool \<times> session" where
  "applyHumanMove s row col =
     (if CheckValidMove (s_board s) row col
      then (let b = MakeMove (s_board s) row col HUMAN in
            (True, s\<lparr>s_board := b,
                     s_game_over := (if WinnerCheck b HUMAN then True else s_game_over s),
                     s_turn := AI\<rparr>))
      else (False, s))"

section \<open>Reference notions the properties are stated against\<close>

text \<open>A cell that lies on the board and holds the given value.\<close>

definition owned :: "board \<Rightarrow> int \<Rightarrow> int \<Rightarrow> int \<Rightarrow> bool" where
  "owned b side r c = (in_bounds r c \<and> cell b r c = side)"

text \<open>
  A run of \<open>n\<close> cells of one side: the cells \<open>(r + dr * i, c + dc * i)\<close>, \<open>i < n\<close>. A side
  has five in line when such a run of at least five cells exists along one of the four
  axes (\<open>run_at\<close> is evaluated by checking the \<open>n\<close> cells one by one).
\<close>

definition run_at :: "board \<Rightarrow> int \<Rightarrow> int \<Rightarrow> int \<Rightarrow> int \<Rightarrow> int \<Rightarrow> nat \<Rightarrow> bool" where
  "run_at b side r c dr dc n =
     list_all (\<lambda>i. owned b side (r + dr * int i) (c + dc * int i)) [0..<n]"

definition five_in_line :: "board \<Rightarrow> int \<Rightarrow> bool" where
  "five_in_line b side =
     (\<exists>n r c dr dc. 5 \<le> n \<and> (dr, dc) \<in> set directions \<and> run_at b side r c dr dc n)"

text \<open>
  The forward run length at a cell: how many consecutive cells, starting there and going
  in one direction, hold the value. No run on the board is longer than \<open>BOARD_DIMENSION\<close>,
  which serves as the bound of the recursion.
\<close>

fun forward_run :: "nat \<Rightarrow> board \<Rightarrow> int \<Rightarrow> int \<Rightarrow> int \<Rightarrow> int \<Rightarrow> int \<Rightarrow> int" where
  "forward_run 0 b r c dr dc target = 0"
| "forward_run (Suc k) b r c dr dc target =
     (if in_bounds r c \<and> cell b r c = target
      then 1 + forward_run k b (r + dr) (c + dc) dr dc target
      else 0)"

definition run_length :: "board \<Rightarrow> int \<Rightarrow> int \<Rightarrow> int \<Rightarrow> int \<Rightarrow> int \<Rightarrow> int" where
  "run_length b r c dr dc target = forward_run (nat BOARD_DIMENSION) b r c dr dc target"

definition opponent_of :: "int \<Rightarrow> int" where
  "opponent_of player = (if player = AI then HUMAN else AI)"

text \<open>
  The evaluation as a sum of squared forward run lengths over all cells and the four
  directions, and the same sum with every run length counted up to \<open>SEQUENCE_LENGTH\<close> only.
\<close>

definition squared_run_sum :: "board \<Rightarrow> int \<Rightarrow> int" where
  "squared_run_sum b side =
     (\<Sum>row\<leftarrow>range_py BOARD_DIMENSION. \<Sum>col\<leftarrow>range_py BOARD_DIMENSION.
        \<Sum>(dr, dc)\<leftarrow>directions.
          (run_length b row col dr dc side)\<^sup>2
          - (run_length b row col dr dc (opponent_of side))\<^sup>2)"

definition capped_squared_run_sum :: "board \<Rightarrow> int \<Rightarrow> int" where
  "capped_squared_run_sum b side =
     (\<Sum>row\<leftarrow>range_py BOARD_DIMENSION. \<Sum>col\<leftarrow>range_py BOARD_DIMENSION.
        \<Sum>(dr, dc)\<leftarrow>directions.
          (min SEQUENCE_LENGTH (run_length b row col dr dc side))\<^sup>2
          - (min SEQUENCE_LENGTH (run_length b row col dr dc (opponent_of side)))\<^sup>2)"

text \<open>The contribution of one cell and one direction to \<^verbatim>\<open>score\<close> in \<^verbatim>\<open>Board_Evaluate\<close>.\<close>

definition contribution :: "board \<Rightarrow> int \<Rightarrow> int \<Rightarrow> int \<Rightarrow> int \<Rightarrow> int \<Rightarrow> int" where
  "contribution b player row col dr dc =
     (if cell b row col = player then (PatternCount b row col dr dc player)\<^sup>2
      else if cell b row col = opponent_of player
      then - (PatternCount b row col dr dc (opponent_of player))\<^sup>2
      else 0)"

text \<open>Placing the mark of \<open>player\<close> on the cell \<open>m\<close> completes a win.\<close>

definition wins_at :: "board \<Rightarrow> int \<Rightarrow> move \<Rightarrow> bool" where
  "wins_at b player m = WinnerCheck (MakeMove b (fst m) (snd m) player) player"

text \<open>A cell within Chebyshev distance \<open>radius\<close> of an occupied cell of the board.\<close>

definition near_occupied :: "board \<Rightarrow> int \<Rightarrow> int \<Rightarrow> int \<Rightarrow> bool" where
  "near_occupied b radius r c =
     (\<exists>r' c'. in_bounds r' c' \<and> cell b r' c' \<noteq> 0 \<and> \<bar>r - r'\<bar> \<le> radius \<and> \<bar>c - c'\<bar> \<le> radius)"

definition no_occupied_cell :: "board \<Rightarrow> bool" where
  "no_occupied_cell b =
     list_all (\<lambda>r. list_all (\<lambda>c. cell b r c = 0) (range_py BOARD_DIMENSION))
       (range_py BOARD_DIMENSION)"

text \<open>
  Exhaustive minimax: \<^verbatim>\<open>MiniMax\<close> with the lines that mention \<open>alpha\<close> and \<open>beta\<close> taken
  out. It enumerates the same candidates in the same order and keeps the first strictly
  better value. It works on values; a placement is a new board.
\<close>

fun exhaustive_max_loop ::
  "(board \<Rightarrow> score) \<Rightarrow> move list \<Rightarrow> board \<Rightarrow> score \<Rightarrow> move option \<Rightarrow> move option \<times> score" where
  "exhaustive_max_loop rec [] b max_eval best_move = (best_move, max_eval)"
| "exhaustive_max_loop rec ((row, col) # rest) b max_eval best_move =
     (let eval = rec (MakeMove b row col AI) in
      if eval > max_eval then exhaustive_max_loop rec rest b eval (Some (row, col))
      else exhaustive_max_loop rec rest b max_eval best_move)"

fun exhaustive_min_loop ::
  "(board \<Rightarrow> score) \<Rightarrow> move list \<Rightarrow> board \<Rightarrow> score \<Rightarrow> move option \<Rightarrow> move option \<times> score" where
  "exhaustive_min_loop rec [] b min_eval best_move = (best_move, min_eval)"
| "exhaustive_min_loop rec ((row, col) # rest) b min_eval best_move =
     (let eval = rec (MakeMove b row col HUMAN) in
      if eval < min_eval then exhaustive_min_loop rec rest b eval (Some (row, col))
      else exhaustive_min_loop rec rest b min_eval best_move)"

fun exhaustive_minimax ::
  "(move list \<Rightarrow> move list) \<Rightarrow> board \<Rightarrow> nat \<Rightarrow> bool \<Rightarrow> move option \<times> score" where
  "exhaustive_minimax it b depth maximizing_player =
     (if depth = 0 \<or> WinnerCheck b HUMAN \<or> WinnerCheck b AI
      then (None, Fin (Board_Evaluate b AI))
      else
        (let valid_moves = ValidMoveFinder it b 2 in
         if maximizing_player
         then exhaustive_max_loop (\<lambda>b'. snd (exhaustive_minimax it b' (depth - 1) False))
                valid_moves b NegInf None
         else exhaustive_min_loop (\<lambda>b'. snd (exhaustive_minimax it b' (depth - 1) True))
                valid_moves b PosInf None))"

text \<open>
  What a child call owes its parent for the window \<open>(alpha, beta)\<close>: a returned value
  \<open>v\<close> inside the window is the exhaustive value \<open>t\<close>; at or below \<open>alpha\<close> it bounds
  \<open>t\<close> from above, at or above \<open>beta\<close> from below.
\<close>

definition window_sound :: "score \<Rightarrow> score \<Rightarrow> score \<Rightarrow> score \<Rightarrow> bool" where
  "window_sound alpha beta v t =
     ((v \<le> alpha \<longrightarrow> t \<le> v) \<and> (beta \<le> v \<longrightarrow> v \<le> t) \<and> (alpha < v \<and> v < beta \<longrightarrow> t = v))"

text \<open>
  Two notions for reasoning about the loops: a recursive call that hands back the board
  it was given, and a list of moves that are all valid on a board.
\<close>

definition restores :: "(board \<Rightarrow> score \<Rightarrow> score \<Rightarrow> board \<times> move option \<times> score) \<Rightarrow> bool" where
  "restores rec = (\<forall>b a be. wf_board b \<longrightarrow> fst (rec b a be) = b)"

definition all_valid :: "board \<Rightarrow> move list \<Rightarrow> bool" where
  "all_valid b ms = (\<forall>(r, c)\<in>set ms. CheckValidMove b r c)"

text \<open>
  What the loops assume of the recursive call \<open>rec\<close>, with \<open>tv\<close> the exhaustive value of
  a board: on a well-formed board and a non-empty window it hands the board back and its
  value is sound for the window.
\<close>

definition child_ok ::
  "(board \<Rightarrow> score \<Rightarrow> score \<Rightarrow> board \<times> move option \<times> score) \<Rightarrow> (board \<Rightarrow> score) \<Rightarrow> bool" where
  "child_ok rec tv =
     (\<forall>b a be. wf_board b \<and> a < be \<longrightarrow>
        fst (rec b a be) = b \<and> window_sound a be (snd (snd (rec b a be))) (tv b))"

declare MiniMax.simps [simp del] exhaustive_minimax.simps [simp del]

section \<open>Sample positions\<close>

text \<open>The position after the forced opening: the engine's mark on the centre cell.\<close>

definition opening_board :: board where
  "opening_board =
     [[0, 0, 0, 0, 0, 0, 0, 0, 0, 0],
      [0, 0, 0, 0, 0, 0, 0, 0, 0, 0],
      [0, 0, 0, 0, 0, 0, 0, 0, 0, 0],
      [0, 0, 0, 0, 0, 0, 0, 0, 0, 0],
      [0, 0, 0, 0, 0, 0, 0, 0, 0, 0],
      [0, 0, 0, 0, 0, 2, 0, 0, 0, 0],
      [0, 0, 0, 0, 0, 0, 0, 0, 0, 0],
      [0, 0, 0, 0, 0, 0, 0, 0, 0, 0],
      [0, 0, 0, 0, 0, 0, 0, 0, 0, 0],
      [0, 0, 0, 0, 0, 0, 0, 0, 0, 0]]"

text \<open>A full board on which neither side has five in line: fifty marks each.\<close>

definition drawn_board :: board where
  "drawn_board =
     [[1, 1, 2, 2, 1, 1, 2, 2, 1, 1],
      [2, 2, 1, 1, 2, 2, 1, 1, 2, 2],
      [1, 1, 2, 2, 1, 1, 2, 2, 1, 1],
      [2, 2, 1, 1, 2, 2, 1, 1, 2, 2],
      [1, 1, 2, 2, 1, 1, 2, 2, 1, 1],
      [2, 2, 1, 1, 2, 2, 1, 1, 2, 2],
      [1, 1, 2, 2, 1, 1, 2, 2, 1, 1],
      [2, 2, 1, 1, 2, 2, 1, 1, 2, 2],
      [1, 1, 2, 2, 1, 1, 2, 2, 1, 1],
      [2, 2, 1, 1, 2, 2, 1, 1, 2, 2]]"

text \<open>The engine holds six cells in a row along the top edge.\<close>

definition six_in_a_row :: board where
  "six_in_a_row =
     [[2, 2, 2, 2, 2, 2, 0, 0, 0, 0],
      [1, 1, 0, 1, 1, 0, 0, 0, 0, 0],
      [0, 0, 0, 0, 0, 0, 0, 0, 0, 0],
      [0, 0, 0, 0, 0, 0, 0, 0, 0, 0],
      [0, 0, 0, 0, 0, 0, 0, 0, 0, 0],
      [0, 0, 0, 0, 0, 0, 0, 0, 0, 0],
      [0, 0, 0, 0, 0, 0, 0, 0, 0, 0],
      [0, 0, 0, 0, 0, 0, 0, 0, 0, 0],
      [0, 0, 0, 0, 0, 0, 0, 0, 0, 0],
      [0, 0, 0, 0, 0, 0, 0, 0, 0, 0]]"

text \<open>The engine has four in a row with the fifth cell free; the human has three.\<close>

definition engine_four :: board where
  "engine_four =
     [[0, 0, 0, 0, 0, 0, 0, 0, 0, 0],
      [0, 0, 0, 0, 0, 0, 0, 0, 0, 0],
      [0, 0, 0, 0, 0, 0, 0, 0, 0, 0],
      [0, 0, 0, 1, 1, 1, 0, 0, 0, 0],
      [0, 0, 0, 0, 0, 0, 0, 0, 0, 0],
      [0, 0, 1, 2, 2, 2, 2, 0, 0, 0],
      [0, 0, 0, 0, 0, 0, 0, 0, 0, 0],
      [0, 0, 0, 0, 0, 0, 0, 0, 0, 0],
      [0, 0, 0, 0, 0, 0, 0, 0, 0, 0],
      [0, 0, 0, 0, 0, 0, 0, 0, 0, 0]]"

text \<open>The human has four in a row with one end free; the engine cannot win at once.\<close>

definition human_four :: board where
  "human_four =
     [[0, 0, 0, 0, 0, 0, 0, 0, 0, 0],
      [0, 0, 0, 0, 0, 0, 0, 0, 0, 0],
      [0, 0, 0, 0, 0, 0, 0, 0, 0, 0],
      [0, 0, 2, 1, 1, 1, 1, 0, 0, 0],
      [0, 0, 0, 0, 0, 0, 0, 0, 0, 0],
      [0, 0, 0, 2, 2, 2, 0, 0, 0, 0],
      [0, 0, 0, 0, 0, 1, 0, 0, 0, 0],
      [0, 0, 0, 0, 0, 0, 0, 0, 0, 0],
      [0, 0, 0, 0, 0, 0, 0, 0, 0, 0],
      [0, 0, 0, 0, 0, 0, 0, 0, 0, 0]]"

section \<open>Evaluation as a sum\<close>

lemma fold_add_sum_list:
  "fold (\<lambda>x (s::int). s + f x) xs s = s + sum_list (map f xs)"
  by (induction xs arbitrary: s) simp_all

lemma sum_list_uminus: "(\<Sum>x\<leftarrow>xs. - f x) = - (\<Sum>x\<leftarrow>xs. (f x :: int))"
  by (induction xs) simp_all

lemma direction_step:
  "(\<lambda>(dr, dc) score. if cell b row col = player
            then score + (PatternCount b row col dr dc player)\<^sup>2
            else if cell b row col = (if player = AI then HUMAN else AI)
            then score - (PatternCount b row col dr dc (if player = AI then HUMAN else AI))\<^sup>2
            else score) = (\<lambda>d score. score + contribution b player row col (fst d) (snd d))"
  by (auto simp: fun_eq_iff contribution_def opponent_of_def)

lemma Board_Evaluate_sum_list:
  "Board_Evaluate b player =
     (\<Sum>row\<leftarrow>range_py BOARD_DIMENSION. \<Sum>col\<leftarrow>range_py BOARD_DIMENSION.
        \<Sum>d\<leftarrow>directions. contribution b player row col (fst d) (snd d))"
  unfolding Board_Evaluate_def Let_def direction_step fold_add_sum_list by simp

lemma contribution_flip:
  "contribution b AI row col dr dc = - contribution b HUMAN row col dr dc"
  by (simp add: contribution_def opponent_of_def AI_def HUMAN_def)

section \<open>Run lengths\<close>

lemma forward_run_bounds:
  "0 \<le> forward_run k b r c dr dc t \<and> forward_run k b r c dr dc t \<le> int k"
  by (induction k arbitrary: r c) auto

lemma forward_run_truncate:
  "forward_run k b r c dr dc target = min (int k) (forward_run (k + j) b r c dr dc target)"
  using forward_run_bounds[of j b _ _ dr dc target]
  by (induction k arbitrary: r c) (auto simp: min_def)

lemma forward_run_ge_iff:
  "int n \<le> forward_run k b r c dr dc t \<longleftrightarrow>
     n \<le> k \<and> (\<forall>i<n. owned b t (r + dr * int i) (c + dc * int i))"
proof (induction k arbitrary: r c n)
  case 0
  then show ?case by auto
next
  case (Suc k)
  show ?case
  proof (cases n)
    case 0
    then show ?thesis using forward_run_bounds[of "Suc k" b r c dr dc t] by simp
  next
    case (Suc m)
    have "(\<forall>i<Suc m. owned b t (r + dr * int i) (c + dc * int i)) \<longleftrightarrow>
          owned b t r c \<and> (\<forall>i<m. owned b t (r + dr + dr * int i) (c + dc + dc * int i))"
      by (auto simp: less_Suc_eq_0_disj algebra_simps)
    then show ?thesis
      using Suc.IH[of m "r + dr" "c + dc"] Suc
        forward_run_bounds[of k b "r + dr" "c + dc" dr dc t]
      by (auto simp: owned_def)
  qed
qed

lemma run_at_iff:
  "run_at b side r c dr dc n \<longleftrightarrow> (\<forall>i<n. owned b side (r + dr * int i) (c + dc * int i))"
  by (auto simp: run_at_def list_all_iff)

lemma run_at_fits_board:
  assumes "(dr, dc) \<in> set directions" and "run_at b side r c dr dc n"
  shows "n \<le> nat BOARD_DIMENSION"
proof (rule ccontr)
  assume "\<not> n \<le> nat BOARD_DIMENSION"
  then have "0 < n" "10 < n" by (simp_all add: BOARD_DIMENSION_def)
  with assms(2) have "owned b side r c" "owned b side (r + dr * 10) (c + dc * 10)"
    using run_at_iff[of b side r c dr dc n] by force+
  with assms(1) show False
    by (auto simp: owned_def in_bounds_def BOARD_DIMENSION_def directions_def)
qed

text \<open>\<open>run_length\<close> is the length of the longest run that starts at the cell.\<close>

lemma run_length_ge_iff:
  assumes "(dr, dc) \<in> set directions"
  shows "int n \<le> run_length b r c dr dc side \<longleftrightarrow> run_at b side r c dr dc n"
  using run_at_fits_board[OF assms, of b side r c n]
  by (auto simp: run_length_def forward_run_ge_iff run_at_iff)

lemma count_loop_upto:
  "count_loop b row col dr dc target [k..n] acc =
     acc + forward_run (nat (n + 1 - k)) b (row + dr * k) (col + dc * k) dr dc target"
proof (induction k n arbitrary: acc rule: upto.induct)
  case (1 i j)
  show ?case
  proof (cases "i \<le> j")
    case False
    then show ?thesis by simp
  next
    case True
    then have n: "nat (j + 1 - i) = Suc (nat (j + 1 - (i + 1)))" by simp
    have u: "[i..j] = i # [i + 1..j]" using True by (simp add: upto_rec1)
    show ?thesis
      unfolding u n using 1[OF True]
      by (simp add: Let_def in_bounds_def algebra_simps)
  qed
qed

lemma count_loop_range:
  "count_loop b row col dr dc target (range_py SEQUENCE_LENGTH) 0 =
     forward_run (nat SEQUENCE_LENGTH) b row col dr dc target"
  unfolding range_py_def by (simp add: count_loop_upto)

lemma PatternCount_forward_run:
  "PatternCount b row col dr dc target = forward_run (nat SEQUENCE_LENGTH) b row col dr dc target"
  unfolding PatternCount_def by (rule count_loop_range)

lemma PatternCount_capped:
  "PatternCount b row col dr dc target = min SEQUENCE_LENGTH (run_length b row col dr dc target)"
  unfolding PatternCount_forward_run run_length_def
  using forward_run_truncate[of "nat SEQUENCE_LENGTH" b row col dr dc target 5]
  by (simp add: SEQUENCE_LENGTH_def BOARD_DIMENSION_def)

lemma run_length_not_owner:
  "cell b row col \<noteq> target \<Longrightarrow> run_length b row col dr dc target = 0"
  by (simp add: run_length_def BOARD_DIMENSION_def eval_nat_numeral)

lemma opponent_differs: "opponent_of player \<noteq> player"
  by (simp add: opponent_of_def AI_def HUMAN_def)

lemma contribution_capped:
  "contribution b player row col dr dc =
     (min SEQUENCE_LENGTH (run_length b row col dr dc player))\<^sup>2
     - (min SEQUENCE_LENGTH (run_length b row col dr dc (opponent_of player)))\<^sup>2"
  using opponent_differs[of player]
  by (auto simp: contribution_def PatternCount_capped run_length_not_owner SEQUENCE_LENGTH_def)

section \<open>The evaluation\<close>

text \<open>
  C8, as stated: for every board and side, \<^verbatim>\<open>Board_Evaluate\<close> is the sum over all cells
  and the four directions of the squared forward run length of the side minus that of the
  opponent. This fails where a run is longer than five cells: on \<open>six_in_a_row\<close> the first
  cell of the top row starts a run of six, the source counts five of them and returns 76,
  the sum of squared run lengths is 87.
\<close>

theorem evaluate_run_length_counterexample:
  "run_length six_in_a_row 0 0 0 1 AI = 6
   \<and> PatternCount six_in_a_row 0 0 0 1 AI = 5
   \<and> Board_Evaluate six_in_a_row AI = 76
   \<and> squared_run_sum six_in_a_row AI = 87
   \<and> Board_Evaluate six_in_a_row AI \<noteq> squared_run_sum six_in_a_row AI"
  by code_simp

text \<open>
  C8, amended: for every board and side, \<^verbatim>\<open>Board_Evaluate\<close> is the sum over all cells and
  the four directions of the square of the forward run length of the side, counted up to
  \<open>SEQUENCE_LENGTH = 5\<close> cells only, minus the same for the opponent.
\<close>

theorem evaluate_is_capped_squared_run_sum:
  "Board_Evaluate b side = capped_squared_run_sum b side"
  unfolding Board_Evaluate_sum_list capped_squared_run_sum_def contribution_capped
  by (simp add: case_prod_unfold)

theorem evaluate_is_capped_squared_run_sum_witness:
  "Board_Evaluate six_in_a_row AI = capped_squared_run_sum six_in_a_row AI
   \<and> capped_squared_run_sum six_in_a_row AI = 76"
proof -
  have "capped_squared_run_sum six_in_a_row AI = 76" by code_simp
  then show ?thesis
    using evaluate_is_capped_squared_run_sum [of six_in_a_row AI] by simp
qed

text \<open>
  C10: for every board, the evaluation for the engine is the negation of the evaluation
  for the human: \<open>evaluate(board, AI) = - evaluate(board, HUMAN)\<close>.
\<close>

theorem evaluate_antisymmetric:
  "Board_Evaluate b AI = - Board_Evaluate b HUMAN"
  by (simp add: Board_Evaluate_sum_list contribution_flip sum_list_uminus)

theorem evaluate_antisymmetric_witness:
  "Board_Evaluate six_in_a_row AI = - Board_Evaluate six_in_a_row HUMAN
   \<and> Board_Evaluate six_in_a_row HUMAN = - 76"
proof -
  have "Board_Evaluate six_in_a_row HUMAN = - 76" by code_simp
  then show ?thesis
    using evaluate_antisymmetric [of six_in_a_row] by simp
qed

section \<open>Rejected human moves\<close>

text \<open>
  C9: for every board and every \<open>(row, col)\<close> that is out of bounds or whose cell is
  occupied, the human's move is not accepted and nothing changes: the board and the rest
  of the session are what they were.
\<close>

theorem applyHumanMove_rejects:
  "\<not> in_bounds row col \<or> (in_bounds row col \<and> cell (s_board s) row col \<noteq> 0) \<Longrightarrow>
   applyHumanMove s row col = (False, s)"
  by (auto simp: applyHumanMove_def CheckValidMove_def in_bounds_def)

theorem applyHumanMove_rejects_witness:
  "in_bounds 5 5 \<and> cell opening_board 5 5 \<noteq> 0 \<and> \<not> in_bounds 10 3
   \<and> applyHumanMove \<lparr>s_board = opening_board, s_game_over = False, s_turn = HUMAN\<rparr> 5 5
       = (False, \<lparr>s_board = opening_board, s_game_over = False, s_turn = HUMAN\<rparr>)
   \<and> applyHumanMove \<lparr>s_board = opening_board, s_game_over = False, s_turn = HUMAN\<rparr> 10 3
       = (False, \<lparr>s_board = opening_board, s_game_over = False, s_turn = HUMAN\<rparr>)"
proof -
  have occupied: "in_bounds 5 5 \<and> cell opening_board 5 5 \<noteq> 0" by code_simp
  have outside: "\<not> in_bounds 10 3" by code_simp
  show ?thesis
    using occupied outside
      applyHumanMove_rejects
        [of 5 5 "\<lparr>s_board = opening_board, s_game_over = False, s_turn = HUMAN\<rparr>"]
      applyHumanMove_rejects
        [of 10 3 "\<lparr>s_board = opening_board, s_game_over = False, s_turn = HUMAN\<rparr>"]
    by simp
qed

section \<open>Win detection\<close>

lemma set_range_py: "set (range_py n) = {0..<n}"
  by (auto simp: range_py_def)

lemma count_loop_five:
  "count_loop b row col dr dc player (range_py SEQUENCE_LENGTH) 0 = SEQUENCE_LENGTH \<longleftrightarrow>
     run_at b player row col dr dc 5"
  unfolding count_loop_range
  using forward_run_ge_iff[of 5 5 b row col dr dc player]
    forward_run_bounds[of 5 b row col dr dc player]
  by (auto simp: run_at_iff SEQUENCE_LENGTH_def)

lemma WinnerCheck_dirs_iff:
  "WinnerCheck_dirs b player row col ds \<longleftrightarrow>
     (\<exists>(dr, dc)\<in>set ds. run_at b player row col dr dc 5)"
  by (induction ds) (auto simp: count_loop_five)

lemma WinnerCheck_cols_iff:
  "WinnerCheck_cols b player row cols \<longleftrightarrow>
     (\<exists>col\<in>set cols. cell b row col = player \<and> WinnerCheck_dirs b player row col directions)"
  by (induction cols) auto

lemma WinnerCheck_rows_iff:
  "WinnerCheck_rows b player rows \<longleftrightarrow>
     (\<exists>row\<in>set rows. WinnerCheck_cols b player row (range_py BOARD_DIMENSION))"
  by (induction rows) auto

lemma run_at_start:
  "run_at b side r c dr dc (Suc n) \<Longrightarrow> in_bounds r c \<and> cell b r c = side"
  using run_at_iff[of b side r c dr dc "Suc n"] by (force simp: owned_def)

lemma run_at_shorter:
  "run_at b side r c dr dc n \<Longrightarrow> m \<le> n \<Longrightarrow> run_at b side r c dr dc m"
  by (simp add: run_at_iff)

lemma WinnerCheck_iff_run5:
  "WinnerCheck b player \<longleftrightarrow>
     (\<exists>r c dr dc. (dr, dc) \<in> set directions \<and> run_at b player r c dr dc 5)"
proof
  assume "WinnerCheck b player"
  then show "\<exists>r c dr dc. (dr, dc) \<in> set directions \<and> run_at b player r c dr dc 5"
    unfolding WinnerCheck_def WinnerCheck_rows_iff WinnerCheck_cols_iff WinnerCheck_dirs_iff
    by blast
next
  assume "\<exists>r c dr dc. (dr, dc) \<in> set directions \<and> run_at b player r c dr dc 5"
  then obtain r c dr dc where d: "(dr, dc) \<in> set directions"
    and run: "run_at b player r c dr dc 5" by blast
  from run have "in_bounds r c \<and> cell b r c = player"
    using run_at_start[of b player r c dr dc 4] by simp
  then have "r \<in> set (range_py BOARD_DIMENSION)" "c \<in> set (range_py BOARD_DIMENSION)"
    "cell b r c = player"
    by (simp_all add: set_range_py in_bounds_def)
  with d run show "WinnerCheck b player"
    unfolding WinnerCheck_def WinnerCheck_rows_iff WinnerCheck_cols_iff WinnerCheck_dirs_iff
    by blast
qed

text \<open>
  C2: for every board and side, \<^verbatim>\<open>WinnerCheck\<close> answers true if and only if there is a
  run of at least five consecutive cells of that side along one of the four axes; the
  forward scan from the owned cells finds every such run.
\<close>

theorem hasWin_iff_five_in_line:
  "WinnerCheck b side \<longleftrightarrow> five_in_line b side"
  unfolding WinnerCheck_iff_run5 five_in_line_def
  using run_at_shorter[of b side _ _ _ _ _ 5] by blast

theorem hasWin_iff_five_in_line_witness:
  "WinnerCheck six_in_a_row AI \<and> five_in_line six_in_a_row AI
   \<and> \<not> WinnerCheck six_in_a_row HUMAN \<and> \<not> five_in_line six_in_a_row HUMAN"
proof -
  have "WinnerCheck six_in_a_row AI" "\<not> WinnerCheck six_in_a_row HUMAN" by code_simp+
  then show ?thesis
    using hasWin_iff_five_in_line [of six_in_a_row AI]
      hasWin_iff_five_in_line [of six_in_a_row HUMAN] by simp
qed

section \<open>Placing and reverting\<close>

lemma MakeMove_revert:
  assumes "wf_board b" and "CheckValidMove b row col"
  shows "MakeMove (MakeMove b row col player) row col 0 = b"
proof -
  from assms have r: "nat row < length b" and z: "b ! nat row ! nat col = 0"
    by (simp_all add: wf_board_def CheckValidMove_def cell_def)
  have "(b ! nat row)[nat col := 0] = b ! nat row"
    using z by (metis list_update_id)
  then show ?thesis
    unfolding MakeMove_def using r by simp
qed

lemma wf_board_MakeMove: "wf_board b \<Longrightarrow> wf_board (MakeMove b row col player)"
proof (cases "nat row < length b")
  case False
  then show "wf_board b \<Longrightarrow> wf_board (MakeMove b row col player)"
    by (simp add: MakeMove_def list_update_beyond)
next
  case True
  assume wf: "wf_board b"
  then have "length ((b ! nat row)[nat col := player]) = nat BOARD_DIMENSION"
    using True by (simp add: wf_board_def list_all_iff)
  then show "wf_board (MakeMove b row col player)"
    using wf set_update_subset_insert[of b "nat row" "(b ! nat row)[nat col := player]"]
    by (auto simp: wf_board_def MakeMove_def list_all_iff)
qed

lemma wouldWin_on_valid:
  "wf_board b \<Longrightarrow> CheckValidMove b row col \<Longrightarrow>
   wouldWin b row col side = (b, wins_at b side (row, col))"
  by (simp add: wouldWin_def wins_at_def MakeMove_revert Let_def)

section \<open>Candidate moves\<close>

lemma fold_append_concat:
  "fold (\<lambda>x acc. acc @ f x) xs acc = acc @ concat (map f xs)"
  by (induction xs arbitrary: acc) simp_all

lemma adds_dc_step:
  "(\<lambda>dc moves. (let nr = row + dr; nc = col + dc in
       if CheckValidMove b nr nc then moves @ [(nr, nc)] else moves)) =
   (\<lambda>dc moves. moves @ (if CheckValidMove b (row + dr) (col + dc)
                          then [(row + dr, col + dc)] else []))"
  by (auto simp: fun_eq_iff Let_def)

lemma adds_col_step:
  "(\<lambda>col moves. if cell b row col \<noteq> 0 then moves @ f col else moves) =
   (\<lambda>col moves. moves @ (if cell b row col \<noteq> 0 then f col else []))"
  by (auto simp: fun_eq_iff)

lemma ValidMoveFinder_adds_concat:
  "ValidMoveFinder_adds b radius =
     concat (map (\<lambda>row. concat (map (\<lambda>col.
       if cell b row col \<noteq> 0
       then concat (map (\<lambda>dr. concat (map (\<lambda>dc.
              if CheckValidMove b (row + dr) (col + dc) then [(row + dr, col + dc)] else [])
              [- radius..radius])) [- radius..radius])
       else []) (range_py BOARD_DIMENSION))) (range_py BOARD_DIMENSION))"
  unfolding ValidMoveFinder_adds_def adds_dc_step fold_append_concat adds_col_step
  by simp

lemma set_ValidMoveFinder_adds:
  "set (ValidMoveFinder_adds b radius) =
     {(r, c). in_bounds r c \<and> cell b r c = 0 \<and> near_occupied b radius r c}"
proof (rule set_eqI, clarify)
  fix r c
  have "(r, c) \<in> set (ValidMoveFinder_adds b radius) \<longleftrightarrow>
        (\<exists>row\<in>{0..<BOARD_DIMENSION}. \<exists>col\<in>{0..<BOARD_DIMENSION}. cell b row col \<noteq> 0 \<and>
           (\<exists>dr\<in>{- radius..radius}. \<exists>dc\<in>{- radius..radius}.
              CheckValidMove b (row + dr) (col + dc) \<and> r = row + dr \<and> c = col + dc))"
    unfolding ValidMoveFinder_adds_concat
    by (simp add: set_range_py split: if_splits) (auto split: if_splits)
  also have "\<dots> \<longleftrightarrow> in_bounds r c \<and> cell b r c = 0 \<and> near_occupied b radius r c"
  proof
    assume "\<exists>row\<in>{0..<BOARD_DIMENSION}. \<exists>col\<in>{0..<BOARD_DIMENSION}. cell b row col \<noteq> 0 \<and>
           (\<exists>dr\<in>{- radius..radius}. \<exists>dc\<in>{- radius..radius}.
              CheckValidMove b (row + dr) (col + dc) \<and> r = row + dr \<and> c = col + dc)"
    then obtain row col dr dc where h: "0 \<le> row" "row < BOARD_DIMENSION" "0 \<le> col"
      "col < BOARD_DIMENSION" "cell b row col \<noteq> 0" "- radius \<le> dr" "dr \<le> radius"
      "- radius \<le> dc" "dc \<le> radius" "CheckValidMove b r c" "r = row + dr" "c = col + dc"
      by auto
    then have "in_bounds row col \<and> cell b row col \<noteq> 0 \<and> \<bar>r - row\<bar> \<le> radius \<and> \<bar>c - col\<bar> \<le> radius"
      by (auto simp: in_bounds_def)
    then have "near_occupied b radius r c" unfolding near_occupied_def by blast
    with h(10) show "in_bounds r c \<and> cell b r c = 0 \<and> near_occupied b radius r c"
      by (simp add: CheckValidMove_def in_bounds_def)
  next
    assume a: "in_bounds r c \<and> cell b r c = 0 \<and> near_occupied b radius r c"
    then obtain r' c' where n: "in_bounds r' c'" "cell b r' c' \<noteq> 0" "\<bar>r - r'\<bar> \<le> radius"
      "\<bar>c - c'\<bar> \<le> radius" unfolding near_occupied_def by blast
    have "r' \<in> {0..<BOARD_DIMENSION}" "c' \<in> {0..<BOARD_DIMENSION}"
      using n(1) by (simp_all add: in_bounds_def)
    moreover have "r - r' \<in> {- radius..radius}" "c - c' \<in> {- radius..radius}"
      using n(3,4) by auto
    moreover have "CheckValidMove b (r' + (r - r')) (c' + (c - c'))"
      using a by (simp add: CheckValidMove_def in_bounds_def)
    ultimately show "\<exists>row\<in>{0..<BOARD_DIMENSION}. \<exists>col\<in>{0..<BOARD_DIMENSION}. cell b row col \<noteq> 0 \<and>
           (\<exists>dr\<in>{- radius..radius}. \<exists>dc\<in>{- radius..radius}.
              CheckValidMove b (row + dr) (col + dc) \<and> r = row + dr \<and> c = col + dc)"
      using n(2) by (intro bexI[of _ r'] bexI[of _ c'] conjI bexI[of _ "r - r'"] bexI[of _ "c - c'"]) simp_all
  qed
  finally show "(r, c) \<in> set (ValidMoveFinder_adds b radius) \<longleftrightarrow>
     (r, c) \<in> {(r, c). in_bounds r c \<and> cell b r c = 0 \<and> near_occupied b radius r c}"
    by simp
qed

lemma set_ValidMoveFinder:
  "set_order it \<Longrightarrow> set (ValidMoveFinder it b radius) =
     {(r, c). in_bounds r c \<and> cell b r c = 0 \<and> near_occupied b radius r c}"
  by (simp add: ValidMoveFinder_def set_order_def set_ValidMoveFinder_adds)

lemma distinct_ValidMoveFinder:
  "set_order it \<Longrightarrow> distinct (ValidMoveFinder it b radius)"
  by (simp add: ValidMoveFinder_def set_order_def)

lemma no_occupied_cell_iff:
  "no_occupied_cell b \<longleftrightarrow> (\<forall>r c. in_bounds r c \<longrightarrow> cell b r c = 0)"
  by (auto simp: no_occupied_cell_def list_all_iff set_range_py in_bounds_def)

lemma ValidMoveFinder_empty_board:
  assumes "set_order it" and "no_occupied_cell b"
  shows "ValidMoveFinder it b radius = []"
proof -
  have "set (ValidMoveFinder it b radius) = {}"
    using assms by (auto simp: set_ValidMoveFinder near_occupied_def no_occupied_cell_iff)
  then show ?thesis by simp
qed

lemma ValidMoveFinder_valid:
  "set_order it \<Longrightarrow> (r, c) \<in> set (ValidMoveFinder it b radius) \<Longrightarrow> CheckValidMove b r c"
  by (simp add: set_ValidMoveFinder CheckValidMove_def in_bounds_def)

lemma set_order_remdups: "set_order remdups"
  by (simp add: set_order_def)

text \<open>
  C6: for every board, the moves returned by \<^verbatim>\<open>ValidMoveFinder\<close> with radius 2 are
  exactly the in-bounds Empty cells within Chebyshev distance 2 of an occupied cell, each
  once; on a board without an occupied cell nothing is returned.
\<close>

theorem generateMoves_sound_complete:
  "set_order it \<Longrightarrow>
   set (ValidMoveFinder it b 2) =
     {(r, c). in_bounds r c \<and> cell b r c = 0 \<and> near_occupied b 2 r c}
   \<and> distinct (ValidMoveFinder it b 2)
   \<and> (no_occupied_cell b \<longrightarrow> ValidMoveFinder it b 2 = [])"
  by (simp add: set_ValidMoveFinder distinct_ValidMoveFinder ValidMoveFinder_empty_board)

theorem generateMoves_sound_complete_witness:
  "set_order remdups
   \<and> set (ValidMoveFinder remdups opening_board 2) =
       {(r, c). in_bounds r c \<and> cell opening_board r c = 0 \<and> near_occupied opening_board 2 r c}
   \<and> distinct (ValidMoveFinder remdups opening_board 2)
   \<and> length (ValidMoveFinder remdups opening_board 2) = 24
   \<and> no_occupied_cell Initialize_Board
   \<and> ValidMoveFinder remdups Initialize_Board 2 = []"
proof -
  have e: "no_occupied_cell Initialize_Board" by code_simp
  have l: "length (ValidMoveFinder remdups opening_board 2) = 24" by code_simp
  show ?thesis
    using e l set_order_remdups
      generateMoves_sound_complete [of remdups opening_board]
      generateMoves_sound_complete [of remdups Initialize_Board]
    by simp
qed


section \<open>The search leaves the board as it was\<close>

lemma MiniMax_terminal:
  "depth = 0 \<or> WinnerCheck b HUMAN \<or> WinnerCheck b AI \<Longrightarrow>
   MiniMax it b depth alpha beta mx = (b, None, Fin (Board_Evaluate b AI))"
  by (subst MiniMax.simps) simp

lemma MiniMax_Suc:
  "\<not> WinnerCheck b HUMAN \<Longrightarrow> \<not> WinnerCheck b AI \<Longrightarrow>
   MiniMax it b (Suc d) alpha beta mx =
     (if mx
      then max_loop (\<lambda>b' a be. MiniMax it b' d a be False)
             (ValidMoveFinder it b 2) b alpha beta NegInf None
      else min_loop (\<lambda>b' a be. MiniMax it b' d a be True)
             (ValidMoveFinder it b 2) b alpha beta PosInf None)"
  by (subst MiniMax.simps) simp

lemma restoresD: "restores rec \<Longrightarrow> wf_board b \<Longrightarrow> fst (rec b a be) = b"
  by (simp add: restores_def)

lemma max_loop_board:
  assumes "restores rec" and "wf_board b" and "all_valid b ms"
  shows "fst (max_loop rec ms b alpha beta max_eval best_move) = b"
  using assms(3)
proof (induction ms arbitrary: alpha max_eval best_move)
  case Nil
  then show ?case by simp
next
  case (Cons m ms)
  obtain row col where m: "m = (row, col)" by (cases m)
  from Cons.prems have v: "CheckValidMove b row col" and rest: "all_valid b ms"
    by (simp_all add: all_valid_def m)
  let ?b1 = "MakeMove b row col AI"
  obtain b2 mv ev where r: "rec ?b1 alpha beta = (b2, mv, ev)" by (cases "rec ?b1 alpha beta")
  have "b2 = ?b1"
    using restoresD[OF assms(1) wf_board_MakeMove[OF assms(2)], of row col AI alpha beta]
    by (simp add: r)
  then have b3: "MakeMove b2 row col 0 = b"
    using MakeMove_revert[OF assms(2) v] by simp
  show ?case
    using Cons.IH[OF rest] by (simp add: m r b3 Let_def)
qed

lemma min_loop_board:
  assumes "restores rec" and "wf_board b" and "all_valid b ms"
  shows "fst (min_loop rec ms b alpha beta min_eval best_move) = b"
  using assms(3)
proof (induction ms arbitrary: beta min_eval best_move)
  case Nil
  then show ?case by simp
next
  case (Cons m ms)
  obtain row col where m: "m = (row, col)" by (cases m)
  from Cons.prems have v: "CheckValidMove b row col" and rest: "all_valid b ms"
    by (simp_all add: all_valid_def m)
  let ?b1 = "MakeMove b row col HUMAN"
  obtain b2 mv ev where r: "rec ?b1 alpha beta = (b2, mv, ev)" by (cases "rec ?b1 alpha beta")
  have "b2 = ?b1"
    using restoresD[OF assms(1) wf_board_MakeMove[OF assms(2)], of row col HUMAN alpha beta]
    by (simp add: r)
  then have b3: "MakeMove b2 row col 0 = b"
    using MakeMove_revert[OF assms(2) v] by simp
  show ?case
    using Cons.IH[OF rest] by (simp add: m r b3 Let_def)
qed

lemma all_valid_ValidMoveFinder:
  "set_order it \<Longrightarrow> all_valid b (ValidMoveFinder it b radius)"
  unfolding all_valid_def using ValidMoveFinder_valid by blast

lemma MiniMax_board:
  assumes "set_order it"
  shows "wf_board b \<Longrightarrow> fst (MiniMax it b depth alpha beta mx) = b"
proof (induction depth arbitrary: b alpha beta mx)
  case 0
  then show ?case by (simp add: MiniMax_terminal)
next
  case (Suc d)
  show ?case
  proof (cases "WinnerCheck b HUMAN \<or> WinnerCheck b AI")
    case True
    then show ?thesis by (simp add: MiniMax_terminal)
  next
    case False
    have "restores (\<lambda>b' a be. MiniMax it b' d a be m)" for m
      using Suc.IH by (simp add: restores_def)
    then show ?thesis
      using False Suc.prems all_valid_ValidMoveFinder[OF assms]
      by (simp add: MiniMax_Suc max_loop_board min_loop_board)
  qed
qed

text \<open>
  C4: for every board, depth, \<open>alpha\<close>, \<open>beta\<close> and maximizing flag, the board that
  \<^verbatim>\<open>MiniMax\<close> leaves behind is the board it was given: every placement made anywhere in
  the recursion has been reverted, with or without a cut-off.
\<close>

theorem search_restores_board:
  "wf_board b \<Longrightarrow> set_order it \<Longrightarrow>
   fst (MiniMax it b depthRemaining alpha beta maximizing) = b"
  by (rule MiniMax_board)

theorem search_restores_board_witness:
  "wf_board opening_board \<and> set_order remdups
   \<and> fst (MiniMax remdups opening_board 2 NegInf PosInf True) = opening_board
   \<and> fst (MiniMax remdups opening_board 3 (Fin 0) (Fin 0) False) = opening_board"
proof -
  have w: "wf_board opening_board" by code_simp
  show ?thesis
    using w set_order_remdups
      search_restores_board [of opening_board remdups 2 NegInf PosInf True]
      search_restores_board [of opening_board remdups 3 "Fin 0" "Fin 0" False]
    by simp
qed

section \<open>No candidates\<close>

lemma MiniMax_no_candidates:
  assumes "0 < depth" and "\<not> WinnerCheck b HUMAN" and "\<not> WinnerCheck b AI"
    and "ValidMoveFinder it b 2 = []"
  shows "MiniMax it b depth alpha beta mx = (b, None, if mx then NegInf else PosInf)"
  using assms by (subst MiniMax.simps) simp

text \<open>
  C1, as stated: with no winner, positive depth and no candidates, \<^verbatim>\<open>MiniMax\<close> returns
  \<open>(None, Board_Evaluate board AI)\<close>. It does not: the loop body never runs and the initial
  best value comes back, \<open>-inf\<close> when maximizing and \<open>+inf\<close> when minimizing. The full
  board without a winner is such a position.
\<close>

theorem search_no_candidates_counterexample:
  "\<not> WinnerCheck drawn_board HUMAN \<and> \<not> WinnerCheck drawn_board AI
   \<and> ValidMoveFinder remdups drawn_board 2 = []
   \<and> MiniMax remdups drawn_board 2 NegInf PosInf True = (drawn_board, None, NegInf)
   \<and> MiniMax remdups drawn_board 2 NegInf PosInf False = (drawn_board, None, PosInf)
   \<and> MiniMax remdups drawn_board 2 NegInf PosInf True
       \<noteq> (drawn_board, None, Fin (Board_Evaluate drawn_board AI))
   \<and> MiniMax remdups drawn_board 2 NegInf PosInf False
       \<noteq> (drawn_board, None, Fin (Board_Evaluate drawn_board AI))"
proof -
  have w: "\<not> WinnerCheck drawn_board HUMAN" "\<not> WinnerCheck drawn_board AI" by code_simp+
  have e: "ValidMoveFinder remdups drawn_board 2 = []" by code_simp
  show ?thesis
    using w e by (simp add: MiniMax_no_candidates)
qed

text \<open>
  C1, amended: for every board on which neither side has a winning run and every positive
  depth, if \<^verbatim>\<open>ValidMoveFinder\<close> returns no candidates then \<^verbatim>\<open>MiniMax\<close> returns no move, and
  as score the initial best value: \<open>-inf\<close> when maximizing, \<open>+inf\<close> when minimizing; the
  board is left as it was and \<^verbatim>\<open>Board_Evaluate\<close> is not consulted.
\<close>

theorem search_no_candidates:
  "0 < depthRemaining \<Longrightarrow> \<not> WinnerCheck b HUMAN \<Longrightarrow> \<not> WinnerCheck b AI \<Longrightarrow>
   ValidMoveFinder it b 2 = [] \<Longrightarrow>
   MiniMax it b depthRemaining alpha beta maximizing =
     (b, None, if maximizing then NegInf else PosInf)"
  by (rule MiniMax_no_candidates)

theorem search_no_candidates_witness:
  "(0::nat) < 2 \<and> \<not> WinnerCheck drawn_board HUMAN \<and> \<not> WinnerCheck drawn_board AI
   \<and> ValidMoveFinder remdups drawn_board 2 = []
   \<and> MiniMax remdups drawn_board 2 (Fin 3) (Fin 7) True = (drawn_board, None, NegInf)
   \<and> MiniMax remdups drawn_board 2 (Fin 3) (Fin 7) False = (drawn_board, None, PosInf)"
proof -
  have w: "\<not> WinnerCheck drawn_board HUMAN" "\<not> WinnerCheck drawn_board AI" by code_simp+
  have e: "ValidMoveFinder remdups drawn_board 2 = []" by code_simp
  show ?thesis
    using w e
      search_no_candidates [of 2 drawn_board remdups "Fin 3" "Fin 7" True]
      search_no_candidates [of 2 drawn_board remdups "Fin 3" "Fin 7" False]
    by simp
qed


section \<open>The move selector\<close>

lemma CriticalMoveFinder_loop_find:
  assumes "wf_board b" and "all_valid b ms"
  shows "CriticalMoveFinder_loop b player ms = (b, find (wins_at b player) ms)"
  using assms(2)
proof (induction ms)
  case Nil
  then show ?case by simp
next
  case (Cons m ms)
  obtain row col where m: "m = (row, col)" by (cases m)
  from Cons.prems have v: "CheckValidMove b row col" and rest: "all_valid b ms"
    by (simp_all add: all_valid_def m)
  show ?case
    using Cons.IH[OF rest] by (simp add: m wouldWin_on_valid[OF assms(1) v])
qed

lemma CriticalMoveFinder_find:
  "wf_board b \<Longrightarrow> set_order it \<Longrightarrow>
   CriticalMoveFinder it b player = (b, find (wins_at b player) (ValidMoveFinder it b 2))"
  by (simp add: CriticalMoveFinder_def CriticalMoveFinder_loop_find all_valid_ValidMoveFinder)

text \<open>
  C7: the probe is only ever applied to the cells the scan for an immediate win visits,
  the candidates of \<^verbatim>\<open>ValidMoveFinder\<close>. For every board, every side and every such
  \<open>(row, col)\<close>, the place-then-check probe leaves the board exactly as it was before the
  call, for a true and for a false answer (the answer is whether the placement wins); so
  does the scan as a whole.
\<close>

theorem wouldWin_restores_board:
  "wf_board b \<Longrightarrow> set_order it \<Longrightarrow> (row, col) \<in> set (ValidMoveFinder it b 2) \<Longrightarrow>
   fst (wouldWin b row col side) = b
   \<and> snd (wouldWin b row col side) = wins_at b side (row, col)
   \<and> fst (CriticalMoveFinder it b side) = b"
  by (simp add: wouldWin_on_valid ValidMoveFinder_valid CriticalMoveFinder_find)

theorem wouldWin_restores_board_witness:
  "wf_board engine_four \<and> set_order remdups
   \<and> (5, 7) \<in> set (ValidMoveFinder remdups engine_four 2)
   \<and> (4, 4) \<in> set (ValidMoveFinder remdups engine_four 2)
   \<and> wouldWin engine_four 5 7 AI = (engine_four, True)
   \<and> wouldWin engine_four 4 4 AI = (engine_four, False)
   \<and> fst (CriticalMoveFinder remdups engine_four AI) = engine_four"
proof -
  have h: "wf_board engine_four" "(5, 7) \<in> set (ValidMoveFinder remdups engine_four 2)"
    "(4, 4) \<in> set (ValidMoveFinder remdups engine_four 2)"
    by code_simp+
  have w: "wins_at engine_four AI (5, 7)" "\<not> wins_at engine_four AI (4, 4)"
    by code_simp+
  show ?thesis
    using h w set_order_remdups
      wouldWin_restores_board [of engine_four remdups 5 7 AI]
      wouldWin_restores_board [of engine_four remdups 4 4 AI]
    by (simp add: prod_eq_iff)
qed

lemma AI_move_find:
  assumes "wf_board b" and "set_order it"
  shows "AI_move it b =
     (b, case find (wins_at b AI) (ValidMoveFinder it b 2) of
           Some m \<Rightarrow> Some m
         | None \<Rightarrow>
            (case find (wins_at b HUMAN) (ValidMoveFinder it b 2) of
               Some m \<Rightarrow> Some m
             | None \<Rightarrow> fst (snd (MiniMax it b 2 NegInf PosInf True))))"
proof -
  obtain b3 mv ev where r: "MiniMax it b 2 NegInf PosInf True = (b3, mv, ev)"
    by (cases "MiniMax it b 2 NegInf PosInf True")
  then have "b3 = b" using MiniMax_board[OF assms(2,1), of 2 NegInf PosInf True] by simp
  then show ?thesis
    using r by (simp add: AI_move_def CriticalMoveFinder_find[OF assms] split: option.splits)
qed

text \<open>
  C5: for every board, \<^verbatim>\<open>AI_move\<close> follows this priority. If placing the engine's mark
  on some candidate wins at once, such a cell is returned; otherwise, if placing the
  human's mark on some candidate would win at once, such a cell is returned; otherwise the
  move is the best move of the search at depth 2 with maximizing = true, started with
  \<open>alpha = -inf\<close> and \<open>beta = +inf\<close>. The board is left as it was. In the first two cases
  the result does not depend on \<^verbatim>\<open>MiniMax\<close> (see \<open>AI_move_find\<close>: the first candidate, in
  enumeration order, that wins).
\<close>

theorem selectEngineMove_priority:
  "wf_board b \<Longrightarrow> set_order it \<Longrightarrow>
   ((\<exists>m\<in>set (ValidMoveFinder it b 2). wins_at b AI m) \<longrightarrow>
      (\<exists>m\<in>set (ValidMoveFinder it b 2). wins_at b AI m \<and> snd (AI_move it b) = Some m))
   \<and> (\<not> (\<exists>m\<in>set (ValidMoveFinder it b 2). wins_at b AI m)
       \<and> (\<exists>m\<in>set (ValidMoveFinder it b 2). wins_at b HUMAN m) \<longrightarrow>
      (\<exists>m\<in>set (ValidMoveFinder it b 2). wins_at b HUMAN m \<and> snd (AI_move it b) = Some m))
   \<and> (\<not> (\<exists>m\<in>set (ValidMoveFinder it b 2). wins_at b AI m)
       \<and> \<not> (\<exists>m\<in>set (ValidMoveFinder it b 2). wins_at b HUMAN m) \<longrightarrow>
      snd (AI_move it b) = fst (snd (MiniMax it b 2 NegInf PosInf True)))
   \<and> fst (AI_move it b) = b"
proof -
  assume wf: "wf_board b" and ord: "set_order it"
  let ?cands = "ValidMoveFinder it b 2"
  let ?A = "\<exists>m\<in>set ?cands. wins_at b AI m"
  let ?H = "\<exists>m\<in>set ?cands. wins_at b HUMAN m"
  have mv: "snd (AI_move it b) =
     (case find (wins_at b AI) ?cands of
        Some m \<Rightarrow> Some m
      | None \<Rightarrow> (case find (wins_at b HUMAN) ?cands of
                   Some m \<Rightarrow> Some m
                 | None \<Rightarrow> fst (snd (MiniMax it b 2 NegInf PosInf True))))"
    and bd: "fst (AI_move it b) = b"
    by (simp_all add: AI_move_find[OF wf ord])
  have noneA: "find (wins_at b AI) ?cands = None \<longleftrightarrow> \<not> ?A"
    by (auto simp: find_None_iff)
  have noneH: "find (wins_at b HUMAN) ?cands = None \<longleftrightarrow> \<not> ?H"
    by (auto simp: find_None_iff)
  show ?thesis
  proof (cases "find (wins_at b AI) ?cands")
    case (Some m)
    then have "m \<in> set ?cands" "wins_at b AI m" by (auto simp: find_Some_iff)
    moreover have "snd (AI_move it b) = Some m" by (simp add: mv Some)
    ultimately have "?A" "\<exists>m\<in>set ?cands. wins_at b AI m \<and> snd (AI_move it b) = Some m"
      by blast+
    then show ?thesis using bd by simp
  next
    case None
    then have nA: "\<not> ?A" using noneA by simp
    show ?thesis
    proof (cases "find (wins_at b HUMAN) ?cands")
      case (Some m)
      then have "m \<in> set ?cands" "wins_at b HUMAN m" by (auto simp: find_Some_iff)
      moreover have "snd (AI_move it b) = Some m" by (simp add: mv None Some)
      ultimately have "?H" "\<exists>m\<in>set ?cands. wins_at b HUMAN m \<and> snd (AI_move it b) = Some m"
        by blast+
      then show ?thesis using bd nA by simp
    next
      case N2: None
      then have nH: "\<not> ?H" using noneH by simp
      have "snd (AI_move it b) = fst (snd (MiniMax it b 2 NegInf PosInf True))"
        by (simp add: mv None N2)
      then show ?thesis using bd nA nH by simp
    qed
  qed
qed

theorem selectEngineMove_priority_witness:
  "wf_board engine_four \<and> wf_board human_four \<and> wf_board opening_board \<and> set_order remdups
   \<and> (\<exists>m\<in>set (ValidMoveFinder remdups engine_four 2).
         wins_at engine_four AI m \<and> snd (AI_move remdups engine_four) = Some m)
   \<and> \<not> (\<exists>m\<in>set (ValidMoveFinder remdups human_four 2). wins_at human_four AI m)
   \<and> (\<exists>m\<in>set (ValidMoveFinder remdups human_four 2).
         wins_at human_four HUMAN m \<and> snd (AI_move remdups human_four) = Some m)
   \<and> \<not> (\<exists>m\<in>set (ValidMoveFinder remdups opening_board 2). wins_at opening_board AI m)
   \<and> \<not> (\<exists>m\<in>set (ValidMoveFinder remdups opening_board 2). wins_at opening_board HUMAN m)
   \<and> snd (AI_move remdups opening_board)
       = fst (snd (MiniMax remdups opening_board 2 NegInf PosInf True))"
proof -
  have wf: "wf_board engine_four" "wf_board human_four" "wf_board opening_board"
    by code_simp+
  have e: "\<exists>m\<in>set (ValidMoveFinder remdups engine_four 2). wins_at engine_four AI m"
    by code_simp
  have h1: "\<not> (\<exists>m\<in>set (ValidMoveFinder remdups human_four 2). wins_at human_four AI m)"
    by code_simp
  have h2: "\<exists>m\<in>set (ValidMoveFinder remdups human_four 2). wins_at human_four HUMAN m"
    by code_simp
  have o1: "\<not> (\<exists>m\<in>set (ValidMoveFinder remdups opening_board 2). wins_at opening_board AI m)"
    by code_simp
  have o2: "\<not> (\<exists>m\<in>set (ValidMoveFinder remdups opening_board 2). wins_at opening_board HUMAN m)"
    by code_simp
  show ?thesis
    using wf e h1 h2 o1 o2 set_order_remdups
      selectEngineMove_priority [of engine_four remdups]
      selectEngineMove_priority [of human_four remdups]
      selectEngineMove_priority [of opening_board remdups]
    by simp
qed


section \<open>Pruned search against exhaustive search\<close>

lemma child_okD:
  "child_ok rec tv \<Longrightarrow> wf_board b \<Longrightarrow> a < be \<Longrightarrow>
   fst (rec b a be) = b \<and> window_sound a be (snd (snd (rec b a be))) (tv b)"
  by (simp add: child_ok_def)

section \<open>Order facts about scores\<close>

lemma NegInf_least [simp]: "NegInf \<le> x"
  by simp

lemma PosInf_greatest [simp]: "x \<le> PosInf"
  by (cases x) simp_all

lemma PosInf_le_iff [simp]: "PosInf \<le> x \<longleftrightarrow> x = PosInf"
  by (cases x) simp_all

lemma le_NegInf_iff [simp]: "x \<le> NegInf \<longleftrightarrow> x = NegInf"
  by (cases x) simp_all

lemma not_less_NegInf [simp]: "\<not> x < NegInf"
  by (simp add: not_less)

lemma not_PosInf_less [simp]: "\<not> PosInf < x"
  by (simp add: not_less)

lemma window_sound_refl: "window_sound a be v v"
  by (simp add: window_sound_def)

section \<open>Values of the exhaustive loops\<close>

lemma exhaustive_max_loop_value:
  "snd (exhaustive_max_loop tv ms b t bm) =
     fold (\<lambda>mv acc. max acc (tv (MakeMove b (fst mv) (snd mv) AI))) ms t"
  by (induction tv ms b t bm rule: exhaustive_max_loop.induct) (auto simp: Let_def max_def)

lemma exhaustive_min_loop_value:
  "snd (exhaustive_min_loop tv ms b t bm) =
     fold (\<lambda>mv acc. min acc (tv (MakeMove b (fst mv) (snd mv) HUMAN))) ms t"
  by (induction tv ms b t bm rule: exhaustive_min_loop.induct) (auto simp: Let_def min_def)

lemma fold_max_ge: "(t::score) \<le> fold (\<lambda>mv acc. max acc (f mv)) ms t"
proof (induction ms arbitrary: t)
  case Nil
  then show ?case by simp
next
  case (Cons m ms)
  have "t \<le> max t (f m)" by simp
  also have "\<dots> \<le> fold (\<lambda>mv acc. max acc (f mv)) ms (max t (f m))" by (rule Cons.IH)
  finally show ?case by simp
qed

lemma fold_min_le: "fold (\<lambda>mv acc. min acc (f mv)) ms t \<le> (t::score)"
proof (induction ms arbitrary: t)
  case Nil
  then show ?case by simp
next
  case (Cons m ms)
  have "fold (\<lambda>mv acc. min acc (f mv)) ms (min t (f m)) \<le> min t (f m)" by (rule Cons.IH)
  also have "\<dots> \<le> t" by simp
  finally show ?case by simp
qed

lemma exhaustive_max_loop_PosInf:
  "exhaustive_max_loop tv ms b PosInf bm = (bm, PosInf)"
  by (induction ms) (auto simp: Let_def)

lemma exhaustive_min_loop_NegInf:
  "exhaustive_min_loop tv ms b NegInf bm = (bm, NegInf)"
  by (induction ms) (auto simp: Let_def)

section \<open>One loop against the exhaustive loop\<close>

lemma max_loop_window:
  assumes child: "child_ok rec tv" and wf: "wf_board b" and "all_valid b ms"
    and "a0 < beta" and "alpha = max a0 m" and "alpha < beta"
    and "m \<le> a0 \<longrightarrow> t \<le> m" and "a0 < m \<longrightarrow> t = m"
  shows "window_sound a0 beta (snd (snd (max_loop rec ms b alpha beta m bm)))
           (fold (\<lambda>mv acc. max acc (tv (MakeMove b (fst mv) (snd mv) AI))) ms t)"
  using assms(3,5-)
proof (induction ms arbitrary: alpha m bm t)
  case Nil
  then show ?case using \<open>a0 < beta\<close> by (auto simp: window_sound_def)
next
  case (Cons mv ms)
  obtain row col where mv: "mv = (row, col)" by (cases mv)
  from Cons.prems(1) have v: "CheckValidMove b row col" and rest: "all_valid b ms"
    by (simp_all add: all_valid_def mv)
  let ?b1 = "MakeMove b row col AI"
  let ?f = "\<lambda>mv acc. max acc (tv (MakeMove b (fst mv) (snd mv) AI))"
  obtain b2 x ev where r: "rec ?b1 alpha beta = (b2, x, ev)" by (cases "rec ?b1 alpha beta")
  have wf1: "wf_board ?b1" by (rule wf_board_MakeMove[OF wf])
  have b2: "b2 = ?b1" and ws: "window_sound alpha beta ev (tv ?b1)"
    using child_okD[OF child wf1 \<open>alpha < beta\<close>] by (simp_all add: r)
  have b3: "MakeMove b2 row col 0 = b"
    using MakeMove_revert[OF wf v] b2 by simp
  let ?m' = "max m ev" and ?t' = "max t (tv ?b1)"
  have unfold: "snd (snd (max_loop rec (mv # ms) b alpha beta m bm)) =
    (if beta \<le> max alpha ev then ?m'
     else snd (snd (max_loop rec ms b (max alpha ev) beta ?m'
            (if ev > m then Some (row, col) else bm))))"
    by (auto simp: mv r b3 Let_def max_def)
  have foldc: "fold ?f (mv # ms) t = fold ?f ms ?t'" by (simp add: mv)
  show ?case
  proof (cases "beta \<le> max alpha ev")
    case True
    with \<open>alpha < beta\<close> have bev: "beta \<le> ev" by (auto simp: max_def split: if_splits)
    then have "ev \<le> tv ?b1" using ws by (simp add: window_sound_def)
    also have "\<dots> \<le> ?t'" by simp
    also have "?t' \<le> fold ?f ms ?t'" by (rule fold_max_ge)
    finally have "ev \<le> fold ?f ms ?t'" .
    moreover have "m \<le> alpha" using Cons.prems(2) by simp
    then have "m < ev" using Cons.prems(3) bev by order
    then have "?m' = ev" by (simp add: max_absorb2 less_imp_le)
    ultimately show ?thesis
      unfolding unfold foldc using True \<open>a0 < beta\<close> bev
      by (auto simp: window_sound_def)
  next
    case False
    then have lt: "max alpha ev < beta" by (simp add: not_le)
    have a': "max alpha ev = max a0 ?m'"
      using Cons.prems(2) by (auto simp: max_def)
    have i1: "?m' \<le> a0 \<longrightarrow> ?t' \<le> ?m'"
      using Cons.prems(2,4,5) ws by (auto simp: window_sound_def max_def split: if_splits)
    have i2: "a0 < ?m' \<longrightarrow> ?t' = ?m'"
      using Cons.prems(2,4,5) ws lt by (auto simp: window_sound_def max_def split: if_splits)
    show ?thesis
      unfolding unfold foldc using False Cons.IH[OF rest a' lt i1 i2] by simp
  qed
qed


lemma min_loop_window:
  assumes child: "child_ok rec tv" and wf: "wf_board b" and "all_valid b ms"
    and "alpha < b0" and "beta = min b0 m" and "alpha < beta"
    and "b0 \<le> m \<longrightarrow> m \<le> t" and "m < b0 \<longrightarrow> t = m"
  shows "window_sound alpha b0 (snd (snd (min_loop rec ms b alpha beta m bm)))
           (fold (\<lambda>mv acc. min acc (tv (MakeMove b (fst mv) (snd mv) HUMAN))) ms t)"
  using assms(3,5-)
proof (induction ms arbitrary: beta m bm t)
  case Nil
  then show ?case using \<open>alpha < b0\<close> by (auto simp: window_sound_def)
next
  case (Cons mv ms)
  obtain row col where mv: "mv = (row, col)" by (cases mv)
  from Cons.prems(1) have v: "CheckValidMove b row col" and rest: "all_valid b ms"
    by (simp_all add: all_valid_def mv)
  let ?b1 = "MakeMove b row col HUMAN"
  let ?f = "\<lambda>mv acc. min acc (tv (MakeMove b (fst mv) (snd mv) HUMAN))"
  obtain b2 x ev where r: "rec ?b1 alpha beta = (b2, x, ev)" by (cases "rec ?b1 alpha beta")
  have wf1: "wf_board ?b1" by (rule wf_board_MakeMove[OF wf])
  have b2: "b2 = ?b1" and ws: "window_sound alpha beta ev (tv ?b1)"
    using child_okD[OF child wf1 \<open>alpha < beta\<close>] by (simp_all add: r)
  have b3: "MakeMove b2 row col 0 = b"
    using MakeMove_revert[OF wf v] b2 by simp
  let ?m' = "min m ev" and ?t' = "min t (tv ?b1)"
  have unfold: "snd (snd (min_loop rec (mv # ms) b alpha beta m bm)) =
    (if min beta ev \<le> alpha then ?m'
     else snd (snd (min_loop rec ms b alpha (min beta ev) ?m'
            (if ev < m then Some (row, col) else bm))))"
    by (auto simp: mv r b3 Let_def min_def)
  have foldc: "fold ?f (mv # ms) t = fold ?f ms ?t'" by (simp add: mv)
  show ?case
  proof (cases "min beta ev \<le> alpha")
    case True
    with \<open>alpha < beta\<close> have eva: "ev \<le> alpha" by (auto simp: min_def split: if_splits)
    have "fold ?f ms ?t' \<le> ?t'" by (rule fold_min_le)
    also have "\<dots> \<le> tv ?b1" by simp
    also have "\<dots> \<le> ev" using ws eva by (simp add: window_sound_def)
    finally have "fold ?f ms ?t' \<le> ev" .
    moreover have "beta \<le> m" using Cons.prems(2) by simp
    then have "ev < m" using Cons.prems(3) eva by order
    then have "?m' = ev" by (simp add: min_absorb2 less_imp_le)
    ultimately show ?thesis
      unfolding unfold foldc using True \<open>alpha < b0\<close> eva
      by (auto simp: window_sound_def)
  next
    case False
    then have lt: "alpha < min beta ev" by (simp add: not_le)
    have b': "min beta ev = min b0 ?m'"
      using Cons.prems(2) by (auto simp: min_def)
    have i1: "b0 \<le> ?m' \<longrightarrow> ?m' \<le> ?t'"
      using Cons.prems(2,4,5) ws by (auto simp: window_sound_def min_def split: if_splits)
    have i2: "?m' < b0 \<longrightarrow> ?t' = ?m'"
      using Cons.prems(2,4,5) ws lt by (auto simp: window_sound_def min_def split: if_splits)
    show ?thesis
      unfolding unfold foldc using False Cons.IH[OF rest b' lt i1 i2] by simp
  qed
qed

lemma exhaustive_minimax_terminal:
  "depth = 0 \<or> WinnerCheck b HUMAN \<or> WinnerCheck b AI \<Longrightarrow>
   exhaustive_minimax it b depth mx = (None, Fin (Board_Evaluate b AI))"
  by (subst exhaustive_minimax.simps) simp

lemma exhaustive_minimax_Suc:
  "\<not> WinnerCheck b HUMAN \<Longrightarrow> \<not> WinnerCheck b AI \<Longrightarrow>
   exhaustive_minimax it b (Suc d) mx =
     (if mx
      then exhaustive_max_loop (\<lambda>b'. snd (exhaustive_minimax it b' d False))
             (ValidMoveFinder it b 2) b NegInf None
      else exhaustive_min_loop (\<lambda>b'. snd (exhaustive_minimax it b' d True))
             (ValidMoveFinder it b 2) b PosInf None)"
  by (subst exhaustive_minimax.simps) simp

lemma MiniMax_window:
  assumes ord: "set_order it"
  shows "wf_board b \<Longrightarrow> alpha < beta \<Longrightarrow>
     window_sound alpha beta (snd (snd (MiniMax it b depth alpha beta mx)))
       (snd (exhaustive_minimax it b depth mx))"
proof (induction depth arbitrary: b alpha beta mx)
  case 0
  then show ?case by (simp add: MiniMax_terminal exhaustive_minimax_terminal window_sound_refl)
next
  case (Suc d)
  show ?case
  proof (cases "WinnerCheck b HUMAN \<or> WinnerCheck b AI")
    case True
    then show ?thesis
      by (simp add: MiniMax_terminal exhaustive_minimax_terminal window_sound_refl)
  next
    case False
    have child: "child_ok (\<lambda>b' a be. MiniMax it b' d a be m)
                   (\<lambda>b'. snd (exhaustive_minimax it b' d m))" for m
      using Suc.IH MiniMax_board[OF ord] by (simp add: child_ok_def)
    have valid: "all_valid b (ValidMoveFinder it b 2)"
      by (rule all_valid_ValidMoveFinder[OF ord])
    show ?thesis
    proof (cases mx)
      case True
      have "window_sound alpha beta
              (snd (snd (max_loop (\<lambda>b' a be. MiniMax it b' d a be False)
                 (ValidMoveFinder it b 2) b alpha beta NegInf None)))
              (fold (\<lambda>mv acc. max acc (snd (exhaustive_minimax it
                 (MakeMove b (fst mv) (snd mv) AI) d False))) (ValidMoveFinder it b 2) NegInf)"
        by (rule max_loop_window[OF child Suc.prems(1) valid Suc.prems(2)])
           (use Suc.prems(2) in \<open>simp_all add: max_def\<close>)
      then show ?thesis
        using False True
        by (simp add: MiniMax_Suc exhaustive_minimax_Suc exhaustive_max_loop_value)
    next
      case mn: False
      have "window_sound alpha beta
              (snd (snd (min_loop (\<lambda>b' a be. MiniMax it b' d a be True)
                 (ValidMoveFinder it b 2) b alpha beta PosInf None)))
              (fold (\<lambda>mv acc. min acc (snd (exhaustive_minimax it
                 (MakeMove b (fst mv) (snd mv) HUMAN) d True))) (ValidMoveFinder it b 2) PosInf)"
        by (rule min_loop_window[OF child Suc.prems(1) valid Suc.prems(2)])
           (use Suc.prems(2) in \<open>simp_all add: min_def\<close>)
      then show ?thesis
        using False mn
        by (simp add: MiniMax_Suc exhaustive_minimax_Suc exhaustive_min_loop_value)
    qed
  qed
qed


section \<open>The root call\<close>

lemma less_PosInf_iff [simp]: "x < PosInf \<longleftrightarrow> x \<noteq> PosInf"
  by (cases x) (simp_all add: less_le_not_le)

lemma NegInf_less_iff [simp]: "NegInf < x \<longleftrightarrow> x \<noteq> NegInf"
  by (cases x) (simp_all add: less_le_not_le)

lemma max_loop_root:
  assumes child: "child_ok rec tv" and wf: "wf_board b" and "all_valid b ms"
    and "m < PosInf"
  shows "snd (max_loop rec ms b m PosInf m bm) = exhaustive_max_loop tv ms b m bm"
  using assms(3,4)
proof (induction ms arbitrary: m bm)
  case Nil
  then show ?case by simp
next
  case (Cons mv ms)
  obtain row col where mv: "mv = (row, col)" by (cases mv)
  from Cons.prems(1) have v: "CheckValidMove b row col" and rest: "all_valid b ms"
    by (simp_all add: all_valid_def mv)
  let ?b1 = "MakeMove b row col AI"
  obtain b2 x ev where r: "rec ?b1 m PosInf = (b2, x, ev)" by (cases "rec ?b1 m PosInf")
  have wf1: "wf_board ?b1" by (rule wf_board_MakeMove[OF wf])
  have b2: "b2 = ?b1" and ws: "window_sound m PosInf ev (tv ?b1)"
    using child_okD[OF child wf1 \<open>m < PosInf\<close>] by (simp_all add: r)
  have b3: "MakeMove b2 row col 0 = b"
    using MakeMove_revert[OF wf v] b2 by simp
  consider (low) "ev \<le> m" | (mid) "m < ev" "ev < PosInf" | (top) "m < ev" "ev = PosInf"
    by (cases ev) (auto simp: not_le[symmetric])
  then show ?case
  proof cases
    case low
    then have "tv ?b1 \<le> m" using ws by (auto simp: window_sound_def)
    then have n: "\<not> m < tv ?b1" "\<not> m < ev" using low by (simp_all add: not_less)
    have a: "max m ev = m" using low by (simp add: max_absorb1)
    show ?thesis
      using Cons.IH[OF rest Cons.prems(2), of bm] Cons.prems(2)
      by (simp add: mv r b3 n a Let_def)
  next
    case mid
    then have t: "tv ?b1 = ev" using ws by (simp add: window_sound_def)
    have a: "max m ev = ev" using mid by (simp add: max_absorb2 less_imp_le)
    show ?thesis
      using Cons.IH[OF rest mid(2), of "Some (row, col)"] mid
      by (simp add: mv r b3 t a Let_def)
  next
    case top
    then have t: "tv ?b1 = PosInf" using ws by (simp add: window_sound_def)
    show ?thesis
      using top by (simp add: mv r b3 t Let_def exhaustive_max_loop_PosInf)
  qed
qed

lemma min_loop_root:
  assumes child: "child_ok rec tv" and wf: "wf_board b" and "all_valid b ms"
    and "NegInf < m"
  shows "snd (min_loop rec ms b NegInf m m bm) = exhaustive_min_loop tv ms b m bm"
  using assms(3,4)
proof (induction ms arbitrary: m bm)
  case Nil
  then show ?case by simp
next
  case (Cons mv ms)
  obtain row col where mv: "mv = (row, col)" by (cases mv)
  from Cons.prems(1) have v: "CheckValidMove b row col" and rest: "all_valid b ms"
    by (simp_all add: all_valid_def mv)
  let ?b1 = "MakeMove b row col HUMAN"
  obtain b2 x ev where r: "rec ?b1 NegInf m = (b2, x, ev)" by (cases "rec ?b1 NegInf m")
  have wf1: "wf_board ?b1" by (rule wf_board_MakeMove[OF wf])
  have b2: "b2 = ?b1" and ws: "window_sound NegInf m ev (tv ?b1)"
    using child_okD[OF child wf1 \<open>NegInf < m\<close>] by (simp_all add: r)
  have b3: "MakeMove b2 row col 0 = b"
    using MakeMove_revert[OF wf v] b2 by simp
  consider (high) "m \<le> ev" | (mid) "ev < m" "NegInf < ev" | (bottom) "ev < m" "ev = NegInf"
    by (cases ev) (auto simp: not_le[symmetric])
  then show ?case
  proof cases
    case high
    then have "m \<le> tv ?b1" using ws by (auto simp: window_sound_def)
    then have n: "\<not> tv ?b1 < m" "\<not> ev < m" using high by (simp_all add: not_less)
    have a: "min m ev = m" using high by (simp add: min_absorb1)
    show ?thesis
      using Cons.IH[OF rest Cons.prems(2), of bm] Cons.prems(2)
      by (simp add: mv r b3 n a Let_def)
  next
    case mid
    then have t: "tv ?b1 = ev" using ws by (simp add: window_sound_def)
    have a: "min m ev = ev" using mid by (simp add: min_absorb2 less_imp_le)
    show ?thesis
      using Cons.IH[OF rest mid(2), of "Some (row, col)"] mid
      by (simp add: mv r b3 t a Let_def)
  next
    case bottom
    then have t: "tv ?b1 = NegInf" using ws by (simp add: window_sound_def)
    show ?thesis
      using bottom by (simp add: mv r b3 t Let_def exhaustive_min_loop_NegInf)
  qed
qed

lemma MiniMax_root:
  assumes ord: "set_order it" and wf: "wf_board b"
  shows "snd (MiniMax it b depth NegInf PosInf mx) = exhaustive_minimax it b depth mx"
proof (cases "depth = 0 \<or> WinnerCheck b HUMAN \<or> WinnerCheck b AI")
  case True
  then show ?thesis by (simp add: MiniMax_terminal exhaustive_minimax_terminal)
next
  case False
  then obtain d where d: "depth = Suc d" by (cases depth) auto
  have child: "child_ok (\<lambda>b' a be. MiniMax it b' d a be m)
                 (\<lambda>b'. snd (exhaustive_minimax it b' d m))" for m
    using MiniMax_window[OF ord] MiniMax_board[OF ord] by (simp add: child_ok_def)
  have valid: "all_valid b (ValidMoveFinder it b 2)"
    by (rule all_valid_ValidMoveFinder[OF ord])
  have lt: "NegInf < PosInf" by simp
  show ?thesis
    using False max_loop_root[OF child wf valid lt] min_loop_root[OF child wf valid lt]
    by (simp add: d MiniMax_Suc exhaustive_minimax_Suc)
qed

text \<open>
  C3: for every board, every depth and every enumeration order of the candidates, the
  search started with \<open>alpha = -inf\<close> and \<open>beta = +inf\<close> returns the move (and the score)
  that exhaustive minimax without pruning returns on the same candidates with the same
  first-strictly-better rule, for a maximizing and for a minimizing root.
\<close>

theorem pruned_search_equals_exhaustive:
  "wf_board b \<Longrightarrow> set_order it \<Longrightarrow>
   fst (snd (MiniMax it b depth NegInf PosInf maximizing))
     = fst (exhaustive_minimax it b depth maximizing)
   \<and> snd (snd (MiniMax it b depth NegInf PosInf maximizing))
     = snd (exhaustive_minimax it b depth maximizing)"
  by (simp add: MiniMax_root)

theorem pruned_search_equals_exhaustive_witness:
  "wf_board human_four \<and> set_order remdups
   \<and> fst (snd (MiniMax remdups human_four 2 NegInf PosInf True))
       = fst (exhaustive_minimax remdups human_four 2 True)
   \<and> snd (snd (MiniMax remdups human_four 2 NegInf PosInf True))
       = snd (exhaustive_minimax remdups human_four 2 True)"
proof -
  have w: "wf_board human_four" by code_simp
  show ?thesis
    using w set_order_remdups
      pruned_search_equals_exhaustive [of human_four remdups 2 True] by simp
qed


end
